theory Spec2Isabelle
  imports Main "HOL-Library.Sublist"
begin

section \<open>The patcher script \<open>fix_auth.py\<close>\<close>

text \<open>
  The script reads \<^verbatim>\<open>server_with_auth.cpp\<close>, rewrites every occurrence of a fixed stub
  assignment into an authentication guard that embeds the next response assignment, and
  writes the text back. Texts are \<open>string\<close>s (character lists); offsets are \<open>nat\<close>s.
  Python's \<open>-1\<close> result of \<open>str.find\<close> is \<open>None\<close>. None of the string operations
  the script uses can raise.
\<close>

subsection \<open>String primitives of the Python runtime\<close>

text \<open>\<open>s[a:b]\<close> for non-negative \<open>a\<close>, \<open>b\<close>: out-of-range bounds are clamped, never an error.\<close>

definition slice :: "string \<Rightarrow> nat \<Rightarrow> nat \<Rightarrow> string" where
  "slice s a b = take (b - a) (drop a s)"

text \<open>Index of the first occurrence of \<open>sub\<close> in a text, scanning left to right.\<close>

fun find_first :: "string \<Rightarrow> string \<Rightarrow> nat option" where
  "find_first sub [] = (if sub = [] then Some 0 else None)"
| "find_first sub (c # cs) =
     (if prefix sub (c # cs) then Some 0 else map_option Suc (find_first sub cs))"

text \<open>\<open>s.find(sub, start)\<close>: the lowest index \<open>i \<ge> start\<close> with \<open>s[i:i+len(sub)] = sub\<close>.\<close>

definition str_find :: "string \<Rightarrow> string \<Rightarrow> nat \<Rightarrow> nat option" where
  "str_find s sub start =
     (if length s < start then None
      else map_option (\<lambda>k. start + k) (find_first sub (drop start s)))"

subsection \<open>Substitution with a literal pattern\<close>

text \<open>
  The characters with a special meaning in the pattern syntax of Python's \<open>re\<close> module.
  A pattern without any of them denotes the literal text itself.
\<close>

definition regex_special :: "char list" where
  \<open>regex_special = ''.^$*+?{}[]|()'' @ [CHR 0x5C]\<close>

text \<open>
  \<open>re.finditer\<close> for such a pattern: the spans \<open>(start, end)\<close> of the non-overlapping
  matches from offset \<open>pos\<close> on, leftmost first. After an empty match the search resumes one
  character further.
\<close>

function finditer :: "string \<Rightarrow> string \<Rightarrow> nat \<Rightarrow> (nat \<times> nat) list" where
  "finditer pat s pos =
     (case str_find s pat pos of
        None \<Rightarrow> []
      | Some m \<Rightarrow> (m, m + length pat) # finditer pat s (max (m + length pat) (Suc m)))"
  by pat_completeness auto

lemma find_first_bound: "find_first sub xs = Some k \<Longrightarrow> k + length sub \<le> length xs"
proof (induction xs arbitrary: k)
  case Nil
  then show ?case by (simp split: if_splits)
next
  case (Cons c cs)
  show ?case
  proof (cases "prefix sub (c # cs)")
    case True
    with Cons.prems have "k = 0" by simp
    with prefix_length_le [OF True] show ?thesis by simp
  next
    case False
    with Cons.prems obtain j where "find_first sub cs = Some j" "k = Suc j" by auto
    with Cons.IH show ?thesis by fastforce
  qed
qed

lemma str_find_bound:
  assumes "str_find s sub start = Some m"
  shows "start \<le> m" and "m + length sub \<le> length s"
proof -
  from assms obtain k where k: "find_first sub (drop start s) = Some k" "m = start + k"
    and le: "start \<le> length s"
    by (auto simp: str_find_def split: if_splits)
  show "start \<le> m" using k by simp
  from find_first_bound [OF k(1)] le k(2) show "m + length sub \<le> length s" by simp
qed

termination finditer
proof (relation "measure (\<lambda>(pat, s, pos). Suc (length s) - pos)")
  show "wf (measure (\<lambda>(pat, s, pos). Suc (length s) - pos))" by simp
next
  fix pat s pos m
  assume "str_find s pat pos = Some m"
  from str_find_bound [OF this]
  show "((pat, s, max (m + length pat) (Suc m)), (pat, s, pos))
          \<in> measure (\<lambda>(pat, s, pos). Suc (length s) - pos)"
    by simp
qed

text \<open>
  The assembly loop of \<open>re.sub\<close>: the text between the previous match and this one is
  copied, then the replacement for the match; after the last match the rest is copied.
\<close>

fun join_matches :: "string \<Rightarrow> (nat \<times> nat \<Rightarrow> string) \<Rightarrow> nat \<Rightarrow> (nat \<times> nat) list \<Rightarrow> string" where
  "join_matches s repl i [] = slice s i (length s)"
| "join_matches s repl i ((b, e) # ms) = slice s i b @ repl (b, e) @ join_matches s repl e ms"

text \<open>\<open>re.sub(pat, repl, s)\<close> with a callable \<open>repl\<close>, whose result is inserted as it is.\<close>

definition re_sub :: "string \<Rightarrow> (nat \<times> nat \<Rightarrow> string) \<Rightarrow> string \<Rightarrow> string" where
  "re_sub pat repl s = join_matches s repl 0 (finditer pat s 0)"

text \<open>\<open>s.replace(old, new)\<close>: every non-overlapping occurrence, leftmost first.\<close>

definition str_replace :: "string \<Rightarrow> string \<Rightarrow> string \<Rightarrow> string" where
  "str_replace s old new = join_matches s (\<lambda>m. new) 0 (finditer old s 0)"

subsection \<open>The constants of the script\<close>

definition pattern :: string where
  \<open>pattern = ''std::string user_id = "authenticated_user"; // TODO: Extract from JWT''\<close>

text \<open>The lines shared by both replacement texts, up to the opening of the else branch.\<close>

definition guard_lines :: string where
  \<open>guard_lines =
     ''std::string user_id = authenticate_and_get_user_id(headers);\<newline>'' @
     ''                    if (user_id.empty()) {\<newline>'' @
     ''                        response = "{"error":"Unauthorized: Invalid or missing authentication token"}";\<newline>'' @
     ''                    } else {\<newline>''\<close>

text \<open>The module-level \<open>replacement\<close> used by the preliminary \<open>content.replace\<close>.\<close>

definition replacement :: string where
  \<open>replacement =
     guard_lines @
     ''                        // Continue with original logic\<newline>'' @
     ''                        response =''\<close>

text \<open>The f-string of \<open>replace_user_id\<close>: the text before and after the interpolated field.\<close>

definition block_head :: string where
  \<open>block_head = guard_lines @ ''                        ''\<close>

definition block_tail :: string where
  \<open>block_tail = ''\<newline>                    }''\<close>

definition guard_block :: "string \<Rightarrow> string" where
  "guard_block response_assignment = block_head @ response_assignment @ block_tail"

subsection \<open>The callback and the transformation\<close>

text \<open>
  \<open>replace_user_id(match)\<close>; \<open>content\<close> is the module-level variable the callback reads,
  the match is its span in \<open>content\<close>.
\<close>

definition replace_user_id :: "string \<Rightarrow> nat \<times> nat \<Rightarrow> string" where
  "replace_user_id content m =
     (let full_match = slice content (fst m) (snd m);
          start_pos = snd m
      in case str_find content ''response ='' start_pos of
           None \<Rightarrow> full_match
         | Some next_response \<Rightarrow>
             (case str_find content '';'' next_response of
                None \<Rightarrow> full_match
              | Some response_end \<Rightarrow>
                  (let response_assignment = slice content next_response (response_end + 1)
                   in guard_block response_assignment)))"

text \<open>The text the script computes from the text it read.\<close>

definition patch :: "string \<Rightarrow> string" where
  "patch content = re_sub pattern (replace_user_id content) content"


subsection \<open>The script as a whole\<close>

text \<open>
  The part of the world the script touches: the text of the file \<^verbatim>\<open>server_with_auth.cpp\<close> (\<open>None\<close>
  when it does not exist), whether it may be opened for reading and for writing, and the
  lines printed so far. An \<open>open\<close> that fails raises; nothing in the script catches it.
  The text is the one Python's text mode hands over, after decoding and newline
  translation. A write that fails after the file was opened is not part of the model.
\<close>

datatype io_error = FileNotFoundError | PermissionError

record world =
  target :: "string option"
  readable :: bool
  writable :: bool
  stdout :: "string list"

text \<open>\<open>with open(path, 'r') as f: content = f.read()\<close>\<close>

definition read_file :: "world \<Rightarrow> io_error + string" where
  "read_file w =
     (case target w of
        None \<Rightarrow> Inl FileNotFoundError
      | Some text \<Rightarrow> if readable w then Inr text else Inl PermissionError)"

text \<open>\<open>with open(path, 'w') as f: f.write(new_content)\<close>\<close>

definition write_file :: "world \<Rightarrow> string \<Rightarrow> io_error + world" where
  "write_file w text = (if writable w then Inr (w\<lparr>target := Some text\<rparr>) else Inl PermissionError)"

definition print_line :: "world \<Rightarrow> string \<Rightarrow> world" where
  "print_line w line = w\<lparr>stdout := stdout w @ [line]\<rparr>"

text \<open>
  The statements between reading and writing. \<open>new_content\<close> is assigned twice: first the
  result of \<open>content.replace\<close>, then the result of \<open>re.sub\<close>.
\<close>

definition transform :: "string \<Rightarrow> string" where
  "transform text =
     (let content = text;
          new_content = str_replace content pattern replacement;
          new_content = re_sub pattern (replace_user_id content) content
      in new_content)"

text \<open>The run of the script: the world it leaves, and the exception it ends with, if any.\<close>

definition script :: "world \<Rightarrow> world \<times> io_error option" where
  "script w =
     (case read_file w of
        Inl err \<Rightarrow> (w, Some err)
      | Inr content \<Rightarrow>
          (let new_content = transform content
           in case write_file w new_content of
                Inl err \<Rightarrow> (w, Some err)
              | Inr w' \<Rightarrow> (print_line w' ''Replacement completed'', None)))"

subsection \<open>The specification's view of one anchor\<close>

text \<open>
  The following statement of an anchor, in the specification's words: in the text after
  the anchor's end, the first \<open>response =\<close> up to and including the next \<open>;\<close>.
  \<open>None\<close> when either search finds nothing.
\<close>

definition following_statement :: "string \<Rightarrow> string option" where
  "following_statement rest =
     (case find_first ''response ='' rest of
        None \<Rightarrow> None
      | Some p \<Rightarrow>
          (case find_first '';'' (drop p rest) of
             None \<Rightarrow> None
           | Some q \<Rightarrow> Some (take (Suc q) (drop p rest))))"

text \<open>What stands in place of an anchor, given the text after it.\<close>

definition replacement_for :: "string \<Rightarrow> string" where
  "replacement_for rest =
     (case following_statement rest of None \<Rightarrow> pattern | Some st \<Rightarrow> guard_block st)"




section \<open>Properties of the search primitives\<close>

declare finditer.simps [simp del]

lemma find_first_None_iff: "find_first sub xs = None \<longleftrightarrow> \<not> sublist sub xs"
  by (induction xs) (auto simp: sublist_Cons_right)

lemma find_first_Some_prefix: "find_first sub xs = Some k \<Longrightarrow> prefix sub (drop k xs)"
proof (induction xs arbitrary: k)
  case Nil
  then show ?case by (simp split: if_splits)
next
  case (Cons c cs)
  then show ?case by (auto split: if_splits)
qed

lemma find_first_Some_least:
  "find_first sub xs = Some k \<Longrightarrow> j < k \<Longrightarrow> \<not> prefix sub (drop j xs)"
proof (induction xs arbitrary: k j)
  case Nil
  then show ?case by (simp split: if_splits)
next
  case (Cons c cs)
  show ?case
  proof (cases "prefix sub (c # cs)")
    case True
    with Cons.prems show ?thesis by simp
  next
    case False
    with Cons.prems obtain k' where k': "find_first sub cs = Some k'" "k = Suc k'" by auto
    show ?thesis
    proof (cases j)
      case 0
      with False show ?thesis by simp
    next
      case (Suc j')
      with Cons.prems(2) k' have "j' < k'" by simp
      from Cons.IH [OF k'(1) this] Suc show ?thesis by simp
    qed
  qed
qed

text \<open>The text skipped before the first occurrence holds no occurrence.\<close>

lemma find_first_take_free:
  assumes "find_first sub xs = Some k" and "sub \<noteq> []"
  shows "\<not> sublist sub (take k xs)"
proof
  assume "sublist sub (take k xs)"
  then obtain ps ss where eq: "take k xs = ps @ sub @ ss" by (auto simp: sublist_def)
  have "length (take k xs) \<le> k" by simp
  with eq assms(2) have lt: "length ps < k" by (cases sub) auto
  have "xs = take k xs @ drop k xs" by simp
  with eq have "xs = ps @ sub @ (ss @ drop k xs)" by simp
  then have "drop (length ps) xs = sub @ (ss @ drop k xs)"
    by (metis append_eq_conv_conj)
  then have "prefix sub (drop (length ps) xs)" by simp
  with find_first_Some_least [OF assms(1) lt] show False by simp
qed

section \<open>No anchor, no change\<close>

text \<open>
  Claim C2. A text in which the anchor pattern does not occur is returned by \<open>patch\<close>
  exactly as it is: not finding the pattern is not an error.
\<close>

theorem patch_without_anchor_is_identity: "\<not> sublist pattern s \<Longrightarrow> patch s = s"
  by (simp add: patch_def re_sub_def finditer.simps [of pattern s 0] str_find_def
      find_first_None_iff [symmetric] slice_def)

theorem patch_without_anchor_is_identity_witness:
  \<open>\<not> sublist pattern ''std::string user_id = "guest";'' \<and>
   patch ''std::string user_id = "guest";'' = ''std::string user_id = "guest";''\<close>
proof -
  have h: \<open>\<not> sublist pattern ''std::string user_id = "guest";''\<close>
    by code_simp
  from h patch_without_anchor_is_identity [OF h] show ?thesis by (rule conjI)
qed

section \<open>The anchor pattern and the frame of the substitution\<close>

lemma pattern_length: "length pattern = 69"
  by (simp add: pattern_def)

lemma pattern_nonempty: "pattern \<noteq> []"
  using pattern_length by auto

text \<open>No proper suffix of the pattern is a prefix of it: two occurrences never overlap.\<close>

lemma pattern_border_free_list:
  "\<forall>d \<in> set [1..<69]. drop d pattern \<noteq> take (69 - d) pattern"
  by code_simp

lemma pattern_border_free:
  assumes "0 < d" and "d < length pattern"
  shows "drop d pattern \<noteq> take (length pattern - d) pattern"
  using assms pattern_border_free_list by (simp add: pattern_length)

lemma str_find_drop:
  "e \<le> length s \<Longrightarrow> str_find s sub e = map_option (\<lambda>k. e + k) (find_first sub (drop e s))"
  by (simp add: str_find_def)

text \<open>On a match the callback computes what the specification describes.\<close>

lemma replace_user_id_eq:
  assumes "e \<le> length s" and "slice s b e = pattern"
  shows "replace_user_id s (b, e) = replacement_for (drop e s)"
proof (cases "find_first ''response ='' (drop e s)")
  case None
  with assms show ?thesis
    by (simp add: replace_user_id_def replacement_for_def following_statement_def str_find_drop)
next
  case (Some p)
  from find_first_bound [OF Some] assms(1) have le: "e + p \<le> length s" by simp
  show ?thesis
  proof (cases "find_first '';'' (drop (e + p) s)")
    case None
    with Some assms le show ?thesis
      by (simp add: replace_user_id_def replacement_for_def following_statement_def str_find_drop
          add.commute)
  next
    case Some2: (Some q)
    with Some assms le show ?thesis
      by (simp add: replace_user_id_def replacement_for_def following_statement_def str_find_drop
          add.commute slice_def)
  qed
qed






section \<open>Replacement blocks never form a new anchor\<close>

lemma sublist_singleton_iff: "sublist [c] ys \<longleftrightarrow> c \<in> set ys"
  by (induction ys) (auto simp: sublist_Cons_right)

text \<open>An occurrence cannot run across a character that the pattern does not have.\<close>

lemma sublist_across_char:
  assumes "sublist xs (l @ [c] @ r)" and "c \<notin> set xs"
  shows "sublist xs l \<or> sublist xs r"
proof -
  from assms(1) have "sublist xs l \<or> sublist xs (c # r) \<or>
      (\<exists>xs1 xs2. xs = xs1 @ xs2 \<and> suffix xs1 l \<and> prefix xs2 (c # r))"
    by (simp add: sublist_append)
  then show ?thesis
  proof (elim disjE exE conjE)
    assume "sublist xs l"
    then show ?thesis by simp
  next
    assume "sublist xs (c # r)"
    then have "prefix xs (c # r) \<or> sublist xs r" by (simp add: sublist_Cons_right)
    with assms(2) show ?thesis by (cases xs) auto
  next
    fix xs1 xs2
    assume eq: "xs = xs1 @ xs2" and suf: "suffix xs1 l" and pre: "prefix xs2 (c # r)"
    show ?thesis
    proof (cases xs2)
      case Nil
      with eq suf show ?thesis by simp
    next
      case (Cons y ys)
      with pre have "y = c" by simp
      with Cons eq assms(2) show ?thesis by simp
    qed
  qed
qed

text \<open>An occurrence cannot end inside a text that lacks the pattern's last character.\<close>

lemma sublist_before_tail:
  assumes "sublist xs (u @ l)" and "xs \<noteq> []" and "last xs \<notin> set l"
  shows "sublist xs u"
proof -
  from assms(1) have "sublist xs u \<or> sublist xs l \<or>
      (\<exists>xs1 xs2. xs = xs1 @ xs2 \<and> suffix xs1 u \<and> prefix xs2 l)"
    by (simp add: sublist_append)
  then show ?thesis
  proof (elim disjE exE conjE)
    assume "sublist xs u"
    then show ?thesis .
  next
    assume "sublist xs l"
    then have "set xs \<subseteq> set l" by (rule set_mono_sublist)
    with assms(2,3) show ?thesis using last_in_set by blast
  next
    fix xs1 xs2
    assume eq: "xs = xs1 @ xs2" and suf: "suffix xs1 u" and pre: "prefix xs2 l"
    show ?thesis
    proof (cases "xs2 = []")
      case True
      with eq suf show ?thesis by simp
    next
      case False
      with eq have "last xs = last xs2" by simp
      moreover from False have "last xs2 \<in> set xs2" by simp
      moreover from pre have "set xs2 \<subseteq> set l" by (rule set_mono_prefix)
      ultimately show ?thesis using assms(3) by auto
    qed
  qed
qed

lemma pattern_chars:
  "CHR ''\<newline>'' \<notin> set pattern" "CHR ''}'' \<notin> set pattern" "CHR '';'' \<in> set pattern"
  "last pattern = CHR ''T''"
  by (simp_all add: pattern_def)

lemma guard_lines_split: "guard_lines = butlast guard_lines @ [CHR ''\<newline>'']"
  by (simp add: guard_lines_def)

lemma guard_lines_no_T: "CHR ''T'' \<notin> set (butlast guard_lines)"
  by (simp add: guard_lines_def)

lemma statement_free:
  assumes "CHR '';'' \<notin> set y"
  shows "\<not> sublist pattern (y @ [CHR '';''])"
proof
  assume "sublist pattern (y @ [CHR '';''])"
  then have "suffix pattern (y @ [CHR '';'']) \<or> sublist pattern y" by (simp add: sublist_snoc)
  then show False
  proof
    assume "suffix pattern (y @ [CHR '';''])"
    then obtain zs where "y @ [CHR '';''] = zs @ pattern" by (auto simp: suffix_def)
    then have "last (y @ [CHR '';'']) = last (zs @ pattern)" by simp
    with pattern_nonempty have "last pattern = CHR '';''" by simp
    with pattern_chars(4) show False by simp
  next
    assume "sublist pattern y"
    then have "set pattern \<subseteq> set y" by (rule set_mono_sublist)
    with pattern_chars(3) assms show False by auto
  qed
qed

lemma guard_block_inert:
  assumes sub: "sublist pattern (u @ guard_block (w @ [CHR '';'']) @ v)"
    and w: "CHR '';'' \<notin> set w"
  shows "sublist pattern u \<or> sublist pattern v"
proof -
  let ?sp24 = "replicate 24 CHR '' ''"
  let ?sp20 = "replicate 20 CHR '' ''"
  let ?st = "w @ [CHR '';'']"
  have "block_head = guard_lines @ ?sp24"
    by (simp add: block_head_def numeral_eq_Suc)
  also have "\<dots> = (butlast guard_lines @ [CHR ''\<newline>'']) @ ?sp24"
    by (rule arg_cong [where f = "\<lambda>x. x @ ?sp24", OF guard_lines_split])
  finally have bh: "block_head = butlast guard_lines @ [CHR ''\<newline>''] @ ?sp24"
    by simp
  have bt: "block_tail = [CHR ''\<newline>''] @ ?sp20 @ [CHR ''}'']"
    by (simp add: block_tail_def numeral_eq_Suc)
  have "u @ guard_block ?st @ v
      = (u @ butlast guard_lines) @ [CHR ''\<newline>''] @ (?sp24 @ ?st @ block_tail @ v)"
    by (simp add: guard_block_def bh)
  with sub pattern_chars(1)
  have "sublist pattern (u @ butlast guard_lines) \<or> sublist pattern (?sp24 @ ?st @ block_tail @ v)"
    using sublist_across_char by metis
  then show ?thesis
  proof
    assume "sublist pattern (u @ butlast guard_lines)"
    from sublist_before_tail [OF this pattern_nonempty] guard_lines_no_T pattern_chars(4)
    show ?thesis by simp
  next
    assume "sublist pattern (?sp24 @ ?st @ block_tail @ v)"
    then have "sublist pattern ((?sp24 @ ?st) @ [CHR ''\<newline>''] @ (?sp20 @ [CHR ''}''] @ v))"
      by (simp add: bt)
    with pattern_chars(1)
    have "sublist pattern (?sp24 @ ?st) \<or> sublist pattern (?sp20 @ [CHR ''}''] @ v)"
      using sublist_across_char by metis
    then show ?thesis
    proof
      assume "sublist pattern (?sp24 @ ?st)"
      then have "sublist pattern ((?sp24 @ w) @ [CHR '';''])" by simp
      moreover have "CHR '';'' \<notin> set (?sp24 @ w)" using w by simp
      ultimately show ?thesis using statement_free by blast
    next
      assume "sublist pattern (?sp20 @ [CHR ''}''] @ v)"
      with pattern_chars(2) have "sublist pattern ?sp20 \<or> sublist pattern v"
        using sublist_across_char by metis
      then show ?thesis
      proof
        assume "sublist pattern ?sp20"
        then have "set pattern \<subseteq> set ?sp20" by (rule set_mono_sublist)
        with pattern_chars(3) show ?thesis by auto
      next
        assume "sublist pattern v"
        then show ?thesis by simp
      qed
    qed
  qed
qed

section \<open>Locating the following statement\<close>


lemma find_first_char:
  assumes "find_first [c] xs = Some q"
  shows "take (Suc q) xs = take q xs @ [c]" and "c \<notin> set (take q xs)"
proof -
  from find_first_bound [OF assms] have lt: "q < length xs" by simp
  from find_first_Some_prefix [OF assms] lt have "xs ! q = c"
    by (metis prefix_def append_Cons nth_via_drop)
  with lt show "take (Suc q) xs = take q xs @ [c]" by (simp add: take_Suc_conv_app_nth)
  from find_first_take_free [OF assms] show "c \<notin> set (take q xs)"
    by (simp add: sublist_singleton_iff)
qed

lemma following_statement_shape:
  assumes "following_statement rest = Some st"
  shows "\<exists>w. st = w @ [CHR '';''] \<and> CHR '';'' \<notin> set w"
proof -
  from assms obtain p q where q: "find_first '';'' (drop p rest) = Some q"
    and st: "st = take (Suc q) (drop p rest)"
    by (auto simp: following_statement_def split: option.splits)
  from find_first_char [OF q] st show ?thesis by auto
qed




section \<open>One anchor and its statement\<close>






section \<open>Several anchors\<close>









section \<open>A statement that reaches into the next anchor\<close>






section \<open>The frame of the substitution\<close>




section \<open>The matches of the pattern\<close>

lemma finditer_None: "str_find s pat pos = None \<Longrightarrow> finditer pat s pos = []"
  by (subst finditer.simps) simp

lemma finditer_anchor:
  "str_find s pattern pos = Some m \<Longrightarrow>
   finditer pattern s pos = (m, m + length pattern) # finditer pattern s (m + length pattern)"
  by (subst finditer.simps) (simp add: pattern_length)

lemma str_find_Some:
  assumes "str_find s sub pos = Some m"
  shows "pos \<le> m" and "m + length sub \<le> length s" and "slice s m (m + length sub) = sub"
    and "find_first sub (drop pos s) = Some (m - pos)"
proof -
  from assms obtain k where k: "find_first sub (drop pos s) = Some k" "m = pos + k"
    and le: "pos \<le> length s"
    by (auto simp: str_find_def split: if_splits)
  from str_find_bound [OF assms] show "pos \<le> m" and "m + length sub \<le> length s" by simp_all
  from find_first_Some_prefix [OF k(1)] obtain zs where "drop k (drop pos s) = sub @ zs"
    by (auto simp: prefix_def)
  then show "slice s m (m + length sub) = sub" by (simp add: slice_def k(2) add.commute)
  from k show "find_first sub (drop pos s) = Some (m - pos)" by simp
qed

text \<open>Every match is a span of the text that equals the pattern.\<close>

lemma finditer_sound:
  "(b, e) \<in> set (finditer pattern s pos) \<Longrightarrow>
   pos \<le> b \<and> e = b + length pattern \<and> e \<le> length s \<and> slice s b e = pattern"
proof (induction pat \<equiv> pattern s pos rule: finditer.induct)
  case (1 s pos)
  show ?case
  proof (cases "str_find s pattern pos")
    case None
    with "1.prems" show ?thesis by (simp add: finditer_None)
  next
    case (Some m)
    note f = str_find_Some [OF Some]
    from "1.prems" have "(b, e) = (m, m + length pattern) \<or>
        (b, e) \<in> set (finditer pattern s (m + length pattern))"
      by (simp add: finditer_anchor [OF Some])
    then show ?thesis
    proof
      assume "(b, e) = (m, m + length pattern)"
      with f show ?thesis by simp
    next
      assume "(b, e) \<in> set (finditer pattern s (m + length pattern))"
      then have "(b, e) \<in> set (finditer pattern s (max (m + length pattern) (Suc m)))"
        by (simp add: pattern_length)
      from "1.hyps" [OF Some this] f(1) show ?thesis by auto
    qed
  qed
qed

text \<open>Two occurrences of the pattern do not overlap.\<close>

lemma anchors_do_not_overlap:
  assumes "prefix pattern (drop m s)" and "prefix pattern (drop b s)" and "m < b"
  shows "m + length pattern \<le> b"
proof (rule ccontr)
  assume "\<not> m + length pattern \<le> b"
  define d where "d = b - m"
  with assms(3) \<open>\<not> m + length pattern \<le> b\<close> have d: "0 < d" "d < length pattern" by simp_all
  from assms(1) obtain zs where zs: "drop m s = pattern @ zs" by (auto simp: prefix_def)
  have "drop b s = drop d (drop m s)" using assms(3) by (simp add: d_def)
  with zs d have "drop b s = drop d pattern @ zs" by simp
  with assms(2) obtain ys where "drop d pattern @ zs = pattern @ ys" by (auto simp: prefix_def)
  then have "take (length pattern - d) (drop d pattern @ zs) = take (length pattern - d) (pattern @ ys)"
    by simp
  then have "drop d pattern = take (length pattern - d) pattern" by simp
  with pattern_border_free [OF d] show False by simp
qed

text \<open>Every span of the text that equals the pattern is a match.\<close>

lemma finditer_complete:
  "prefix pattern (drop b s) \<Longrightarrow> pos \<le> b \<Longrightarrow>
   (b, b + length pattern) \<in> set (finditer pattern s pos)"
proof (induction pat \<equiv> pattern s pos rule: finditer.induct)
  case (1 s pos)
  from "1.prems"(1) pattern_nonempty have bl: "b \<le> length s"
    by (cases "b \<le> length s") auto
  have "prefix pattern (drop (b - pos) (drop pos s))" using "1.prems" by simp
  then have sub: "sublist pattern (drop pos s)"
    by (meson prefix_imp_sublist sublist_drop sublist_order.order_trans)
  then obtain k where k: "find_first pattern (drop pos s) = Some k"
    using find_first_None_iff [of pattern "drop pos s"]
    by (cases "find_first pattern (drop pos s)") auto
  have "\<not> b - pos < k"
    using find_first_Some_least [OF k, of "b - pos"] \<open>prefix pattern (drop (b - pos) (drop pos s))\<close>
    by blast
  then have kb: "pos + k \<le> b" using "1.prems"(2) by simp
  from k bl "1.prems"(2) have f: "str_find s pattern pos = Some (pos + k)"
    by (simp add: str_find_def)
  show ?case
  proof (cases "pos + k = b")
    case True
    with f show ?thesis by (simp add: finditer_anchor)
  next
    case False
    with kb have lt: "pos + k < b" by simp
    from find_first_Some_prefix [OF k] have "prefix pattern (drop (pos + k) s)"
      by (simp add: add.commute)
    from anchors_do_not_overlap [OF this "1.prems"(1) lt]
    have "max (pos + k + length pattern) (Suc (pos + k)) \<le> b" by (simp add: pattern_length)
    from "1.hyps" [OF f "1.prems"(1) this]
    show ?thesis by (simp add: finditer_anchor [OF f] pattern_length)
  qed
qed

lemma pattern_no_special: "set pattern \<inter> set regex_special = {}"
  by (simp add: pattern_def regex_special_def)

text \<open>
  Claim C6. The pattern holds no character that is special in a regular expression, so
  it stands for its own text; and the spans that \<open>re.sub\<close> matches in a text are exactly
  the spans that equal the pattern, character for character.
\<close>

theorem anchor_is_matched_verbatim:
  "set pattern \<inter> set regex_special = {} \<and>
   ((b, e) \<in> set (finditer pattern s 0) \<longleftrightarrow> e = b + length pattern \<and> slice s b e = pattern)"
proof -
  have "(b, e) \<in> set (finditer pattern s 0)" if "e = b + length pattern" "slice s b e = pattern"
  proof -
    from that have "take (length pattern) (drop b s) = pattern" by (simp add: slice_def)
    then have "prefix pattern (drop b s)" by (metis take_is_prefix)
    from finditer_complete [OF this, of 0] that(1) show ?thesis by simp
  qed
  with finditer_sound [of b e s 0] pattern_no_special show ?thesis by blast
qed

section \<open>The replacement of a match in the output\<close>

lemma join_matches_sublist:
  "m \<in> set ms \<Longrightarrow> sublist (repl m) (join_matches s repl i ms)"
proof (induction ms arbitrary: i)
  case Nil
  then show ?case by simp
next
  case (Cons x ms)
  obtain b e where x: "x = (b, e)" by (cases x)
  show ?case
  proof (cases "m = x")
    case True
    then show ?thesis by (simp add: x)
  next
    case False
    with Cons.prems have "m \<in> set ms" by simp
    from Cons.IH [OF this, of e]
    have "sublist (repl m) ((slice s i b @ repl (b, e)) @ join_matches s repl e ms @ [])"
      by (metis sublist_appendI sublist_order.order_trans)
    then show ?thesis by (simp add: x)
  qed
qed

text \<open>
  Claim C5. For a match of the pattern after which the callback finds \<open>response =\<close> at
  \<open>next_response\<close> and \<open>;\<close> at \<open>response_end\<close>, the replacement is the fixed text up to
  the opening of the else branch, then the characters of the original text from
  \<open>next_response\<close> to \<open>response_end\<close> as they are, then the closing brace; and this
  replacement is part of the output.
\<close>

theorem following_statement_is_embedded_verbatim:
  assumes \<open>(b, e) \<in> set (finditer pattern s 0)\<close>
    and \<open>str_find s ''response ='' e = Some next_response\<close>
    and \<open>str_find s '';'' next_response = Some response_end\<close>
  shows \<open>replace_user_id s (b, e)
           = block_head @ slice s next_response (response_end + 1) @ block_tail \<and>
         suffix (''} else {\<newline>'' @ ''                        '') block_head \<and>
         block_tail = ''\<newline>'' @ ''                    }'' \<and>
         sublist (replace_user_id s (b, e)) (patch s)\<close>
proof (intro conjI)
  show \<open>replace_user_id s (b, e)
           = block_head @ slice s next_response (response_end + 1) @ block_tail\<close>
    using assms(2,3) by (simp add: replace_user_id_def guard_block_def)
  show \<open>suffix (''} else {\<newline>'' @ ''                        '') block_head\<close>
    unfolding suffix_def block_head_def guard_lines_def
    by (intro exI [of _ \<open>''std::string user_id = authenticate_and_get_user_id(headers);\<newline>'' @
     ''                    if (user_id.empty()) {\<newline>'' @
     ''                        response = "{"error":"Unauthorized: Invalid or missing authentication token"}";\<newline>'' @
     ''                    ''\<close>]) simp
  show \<open>block_tail = ''\<newline>'' @ ''                    }''\<close> by (simp add: block_tail_def)
  show \<open>sublist (replace_user_id s (b, e)) (patch s)\<close>
    unfolding patch_def re_sub_def using assms(1) by (rule join_matches_sublist)
qed


theorem following_statement_is_embedded_verbatim_witness:
  \<open>(0, 69) \<in> set (finditer pattern (pattern @ ''\<newline>response = "ok";'') 0) \<and>
   str_find (pattern @ ''\<newline>response = "ok";'') ''response ='' 69 = Some 70 \<and>
   str_find (pattern @ ''\<newline>response = "ok";'') '';'' 70 = Some 85 \<and>
   replace_user_id (pattern @ ''\<newline>response = "ok";'') (0, 69)
     = block_head @ ''response = "ok";'' @ block_tail \<and>
   sublist (replace_user_id (pattern @ ''\<newline>response = "ok";'') (0, 69))
     (patch (pattern @ ''\<newline>response = "ok";''))\<close>
proof -
  let ?s = \<open>pattern @ ''\<newline>response = "ok";''\<close>
  have h1: \<open>(0, 69) \<in> set (finditer pattern ?s 0)\<close> by code_simp
  have h2: \<open>str_find ?s ''response ='' 69 = Some 70\<close> by code_simp
  have h3: \<open>str_find ?s '';'' 70 = Some 85\<close> by code_simp
  have sl: \<open>slice ?s 70 (85 + 1) = ''response = "ok";''\<close> by code_simp
  note th = following_statement_is_embedded_verbatim [OF h1 h2 h3, unfolded sl]
  from th h1 h2 h3 show ?thesis by blast
qed

section \<open>A second application\<close>

text \<open>
  When every match has a following statement, nothing in the assembled output equals the
  pattern: not the text between the matches, and not a guard block or its borders.
\<close>

lemma join_matches_free:
  "\<forall>m \<in> set (finditer pattern s pos). following_statement (drop (snd m) s) \<noteq> None \<Longrightarrow>
   \<not> sublist pattern (join_matches s (replace_user_id s) pos (finditer pattern s pos))"
proof (induction pat \<equiv> pattern s pos rule: finditer.induct)
  case (1 s pos)
  show ?case
  proof (cases "str_find s pattern pos")
    case None
    have "\<not> sublist pattern (drop pos s)"
    proof (cases "length s < pos")
      case True
      then show ?thesis using pattern_nonempty by simp
    next
      case False
      with None show ?thesis by (simp add: str_find_def find_first_None_iff)
    qed
    with None show ?thesis by (simp add: finditer_None slice_def)
  next
    case (Some m)
    note f = str_find_Some [OF Some]
    let ?e = "m + length pattern"
    let ?rest = "join_matches s (replace_user_id s) ?e (finditer pattern s ?e)"
    have it: "finditer pattern s pos = (m, ?e) # finditer pattern s ?e"
      using Some by (rule finditer_anchor)
    have gap: "\<not> sublist pattern (slice s pos m)"
      using find_first_take_free [OF f(4) pattern_nonempty] by (simp add: slice_def)
    from "1.prems" it obtain st where st: "following_statement (drop ?e s) = Some st"
      by fastforce
    from following_statement_shape [OF st] obtain w
      where w: "st = w @ [CHR '';'']" "CHR '';'' \<notin> set w" by blast
    have r: "replace_user_id s (m, ?e) = guard_block (w @ [CHR '';''])"
      using replace_user_id_eq [OF f(2,3)] st w(1) by (simp add: replacement_for_def)
    have "\<forall>m \<in> set (finditer pattern s (max ?e (Suc m))).
        following_statement (drop (snd m) s) \<noteq> None"
      using "1.prems" it by (simp add: pattern_length)
    from "1.hyps" [OF Some this] have rest: "\<not> sublist pattern ?rest"
      by (simp add: pattern_length)
    show ?thesis
    proof
      assume "sublist pattern (join_matches s (replace_user_id s) pos (finditer pattern s pos))"
      then have "sublist pattern (slice s pos m @ guard_block (w @ [CHR '';'']) @ ?rest)"
        by (simp add: it r)
      from guard_block_inert [OF this w(2)] gap rest show False by blast
    qed
  qed
qed

text \<open>
  Claim C7. If every anchor of the input has a following statement, the output of
  \<open>patch\<close> holds no anchor, and patching the output again changes nothing.
\<close>

theorem patched_output_has_no_anchor:
  assumes "\<forall>m \<in> set (finditer pattern s 0). following_statement (drop (snd m) s) \<noteq> None"
  shows "\<not> sublist pattern (patch s) \<and> patch (patch s) = patch s"
proof -
  from join_matches_free [OF assms] have free: "\<not> sublist pattern (patch s)"
    by (simp add: patch_def re_sub_def)
  then have "patch (patch s) = patch s"
    by (simp add: patch_def re_sub_def finditer_None str_find_def
        find_first_None_iff [symmetric] slice_def)
  with free show ?thesis by simp
qed


theorem patched_output_has_no_anchor_witness:
  \<open>finditer pattern (''{'' @ pattern @ '' response = f(user_id); }'') 0 = [(1, 70)] \<and>
   following_statement (drop 70 (''{'' @ pattern @ '' response = f(user_id); }''))
     = Some ''response = f(user_id);'' \<and>
   \<not> sublist pattern (patch (''{'' @ pattern @ '' response = f(user_id); }'')) \<and>
   patch (patch (''{'' @ pattern @ '' response = f(user_id); }''))
     = patch (''{'' @ pattern @ '' response = f(user_id); }'')\<close>
proof -
  let ?s = \<open>''{'' @ pattern @ '' response = f(user_id); }''\<close>
  have m: \<open>finditer pattern ?s 0 = [(1, 70)]\<close> by code_simp
  have f: \<open>following_statement (drop 70 ?s) = Some ''response = f(user_id);''\<close> by code_simp
  have h: \<open>\<forall>m \<in> set (finditer pattern ?s 0). following_statement (drop (snd m) ?s) \<noteq> None\<close>
    unfolding m using f by simp
  from patched_output_has_no_anchor [OF h] m f show ?thesis by blast
qed

section \<open>Reading, writing and the acknowledgment\<close>

lemma transform_eq: "transform text = patch text"
  by (simp add: transform_def patch_def)

text \<open>
  Claim C8. If reading fails, the script ends with that exception and leaves the world as
  it was: the file is not written and nothing is printed. The acknowledgment is printed
  exactly when the run ends without exception, and then the file was read, transformed
  and written.
\<close>

theorem read_failure_propagates:
  "(read_file w = Inl err \<longrightarrow> script w = (w, Some err)) \<and>
   (stdout (fst (script w)) = stdout w @ [''Replacement completed'']
      \<longleftrightarrow> snd (script w) = None) \<and>
   (snd (script w) = None \<longrightarrow>
      (\<exists>text. read_file w = Inr text \<and> writable w \<and>
              target (fst (script w)) = Some (transform text)))"
proof (intro conjI impI)
  assume "read_file w = Inl err"
  then show "script w = (w, Some err)" by (simp add: script_def)
next
  show "stdout (fst (script w)) = stdout w @ [''Replacement completed'']
      \<longleftrightarrow> snd (script w) = None"
    by (auto simp: script_def write_file_def print_line_def Let_def split: sum.splits)
next
  assume "snd (script w) = None"
  then show "\<exists>text. read_file w = Inr text \<and> writable w \<and>
      target (fst (script w)) = Some (transform text)"
    by (auto simp: script_def write_file_def print_line_def Let_def split: sum.splits if_splits)
qed

theorem read_failure_propagates_witness:
  "read_file \<lparr>target = None, readable = True, writable = True, stdout = []\<rparr>
     = Inl FileNotFoundError \<and>
   script \<lparr>target = None, readable = True, writable = True, stdout = []\<rparr>
     = (\<lparr>target = None, readable = True, writable = True, stdout = []\<rparr>, Some FileNotFoundError)"
proof -
  let ?w = "\<lparr>target = None, readable = True, writable = True, stdout = []\<rparr>"
  have h: "read_file ?w = Inl FileNotFoundError" by (simp add: read_file_def)
  from read_failure_propagates [of ?w FileNotFoundError] h show ?thesis by blast
qed

text \<open>
  Claim C9. What the script writes is the result of \<open>re.sub\<close> with the callback on the
  text it read; the result of the earlier \<open>content.replace\<close> is overwritten before it is
  used and has no part in it.
\<close>

theorem written_content_is_callback_result:
  assumes "read_file w = Inr text" and "writable w"
  shows "snd (script w) = None \<and>
         target (fst (script w)) = Some (re_sub pattern (replace_user_id text) text)"
  using assms by (simp add: script_def write_file_def print_line_def transform_def)


theorem written_content_is_callback_result_witness:
  \<open>read_file \<lparr>target = Some (pattern @ ''\<newline>response = "ok";''), readable = True,
               writable = True, stdout = []\<rparr>
     = Inr (pattern @ ''\<newline>response = "ok";'') \<and>
   writable \<lparr>target = Some (pattern @ ''\<newline>response = "ok";''), readable = True,
              writable = True, stdout = []\<rparr> \<and>
   target (fst (script \<lparr>target = Some (pattern @ ''\<newline>response = "ok";''), readable = True,
                         writable = True, stdout = []\<rparr>))
     = Some (re_sub pattern (replace_user_id (pattern @ ''\<newline>response = "ok";''))
               (pattern @ ''\<newline>response = "ok";'')) \<and>
   re_sub pattern (replace_user_id (pattern @ ''\<newline>response = "ok";''))
       (pattern @ ''\<newline>response = "ok";'')
     \<noteq> str_replace (pattern @ ''\<newline>response = "ok";'') pattern replacement\<close>
proof -
  let ?text = \<open>pattern @ ''\<newline>response = "ok";''\<close>
  let ?w = \<open>\<lparr>target = Some ?text, readable = True, writable = True, stdout = []\<rparr>\<close>
  have r: \<open>read_file ?w = Inr ?text\<close> by (simp add: read_file_def)
  have w: \<open>writable ?w\<close> by simp
  have d: \<open>re_sub pattern (replace_user_id ?text) ?text \<noteq> str_replace ?text pattern replacement\<close>
    by code_simp
  from written_content_is_callback_result [OF r w] r w d show ?thesis by blast
qed

end
